theory Spec2Isabelle
  imports Main
begin

section \<open>Promises and the command\<close>

text \<open>
  A command is a function that takes parameters and returns a promise. The executors never
  look at the value or the error, so both are type parameters. A promise settles once:
  it is fulfilled with a value or rejected with an error.
\<close>

datatype ('v, 'e) settlement = Fulfilled 'v | Rejected 'e

datatype ('v, 'e) promise_state = Pending | Settled "('v, 'e) settlement"

text \<open>
  Two kinds of promise occur in \<^verbatim>\<open>LadderExecutor.run\<close>: the promise the command returned
  for its n-th invocation (line 18, \<^verbatim>\<open>super.run(...parameters)\<close>), and the n-th promise made
  by \<^verbatim>\<open>new Promise((resolve) => ...)\<close> (line 26).
\<close>

datatype promise = CommandPromise nat | NewPromise nat

section \<open>The state of a LadderExecutor\<close>

text \<open>
  The fields of the base class (\<open>isRunning\<close> \<dots> \<open>wasLastRunFine\<close>, as the spec, 3,
  lists them: \<open>isRunning\<close> counts the invocations in flight and line 17 tests it for
  zero), the field \<^verbatim>\<open>trigger: Function | null\<close> of LadderExecutor, and the part of the
  JavaScript heap the executor's closures reach:
  \<^item> \<open>trigger\<close>: the closure \<^verbatim>\<open>() => this.run(...parameters).then(resolve)\<close> of line 27 is
    determined by the two variables it captures, the parameters and the \<^verbatim>\<open>resolve\<close> of the
    promise of line 26; \<open>Some (parameters, q)\<close> stands for the closure whose \<^verbatim>\<open>resolve\<close>
    belongs to \<open>NewPromise q\<close>, \<open>None\<close> for \<^verbatim>\<open>null\<close>;
  \<^item> \<open>invocations\<close>: the invocations of the command, in the order they were started, each
    with its parameters and the state of the promise the command returned;
  \<^item> \<open>created\<close>: the promises of line 26. The executor of such a promise takes
    \<^verbatim>\<open>resolve\<close> only, so it is pending (\<open>None\<close>) or fulfilled (\<open>Some v\<close>);
  \<^item> \<open>chained\<close>: the registrations \<^verbatim>\<open>.then(resolve)\<close> of line 27, in the order they were
    made: \<open>(p, q)\<close> says that the fulfilment of \<open>p\<close> calls the \<^verbatim>\<open>resolve\<close> of
    \<open>NewPromise q\<close>.
\<close>

record ('a, 'v, 'e) executor =
  isRunning :: int
  runCount :: nat
  wasRun :: bool
  wasRunFine :: bool
  wasRunBad :: bool
  wasLastRunFine :: bool
  trigger :: "('a \<times> nat) option"
  invocations :: "('a \<times> ('v, 'e) promise_state) list"
  created :: "'v option list"
  chained :: "(promise \<times> nat) list"

definition new_executor :: "('a, 'v, 'e) executor" where
  "new_executor =
     \<lparr>isRunning = 0, runCount = 0, wasRun = False, wasRunFine = False, wasRunBad = False,
      wasLastRunFine = False, trigger = None, invocations = [], created = [], chained = []\<rparr>"

section \<open>The base class Executor\<close>

text \<open>
  Modelled from the spec: the class \<^verbatim>\<open>Executor\<close> (\<^verbatim>\<open>./Executor\<close>, imported on line 1) is
  not among the source files. The spec, 4.1: \<^verbatim>\<open>run(...params)\<close> invokes the wrapped command
  unconditionally and returns the same deferred result the command produces; on start
  \<^verbatim>\<open>runCount += 1\<close>, \<^verbatim>\<open>isRunning += 1\<close>, \<^verbatim>\<open>wasRun = true\<close>.
\<close>

definition Executor_run ::
  "'a \<Rightarrow> ('a, 'v, 'e) executor \<Rightarrow> promise \<times> ('a, 'v, 'e) executor" where
  "Executor_run parameters s =
     (CommandPromise (length (invocations s)),
      s\<lparr>runCount := runCount s + 1, isRunning := isRunning s + 1, wasRun := True,
        invocations := invocations s @ [(parameters, Pending)]\<rparr>)"

text \<open>
  Modelled from the spec: the bookkeeping of \<^verbatim>\<open>Executor\<close> when an invocation settles. The
  spec, 4.1: on settle \<^verbatim>\<open>isRunning -= 1\<close>; on success \<^verbatim>\<open>wasRunFine = true\<close>,
  \<^verbatim>\<open>wasLastRunFine = true\<close>; on failure \<^verbatim>\<open>wasRunBad = true\<close>,
  \<^verbatim>\<open>wasLastRunFine = false\<close>. The spec, 5: a follow-up never starts before the state has
  been updated, so this runs before the callbacks of LadderExecutor. The README's live search
  agrees: the queued request runs once the first one resolves, and line 17 lets it run only
  if the count is back at zero when the callback of line 19 calls the trigger.
\<close>

definition Executor_settled ::
  "('v, 'e) settlement \<Rightarrow> ('a, 'v, 'e) executor \<Rightarrow> ('a, 'v, 'e) executor" where
  "Executor_settled outcome s =
     (case outcome of
        Fulfilled v \<Rightarrow>
          s\<lparr>isRunning := isRunning s - 1, wasRunFine := True, wasLastRunFine := True\<rparr>
      | Rejected e \<Rightarrow>
          s\<lparr>isRunning := isRunning s - 1, wasRunBad := True, wasLastRunFine := False\<rparr>)"

section \<open>LadderExecutor.run\<close>

text \<open>
  Lines 16 to 29. \<^verbatim>\<open>!this.isRunning\<close> holds when the count is zero. In the first branch
  the promise of \<^verbatim>\<open>super.run\<close> is returned as it is; the callback that line 19 registers on
  it is \<open>then_callback\<close> below, and \<open>settle\<close> runs it when the promise is fulfilled. In
  the second branch the executor of the new promise runs at once: it stores the closure in
  \<open>trigger\<close>, over whatever was there, and the new promise is returned pending.
\<close>

definition run ::
  "'a \<Rightarrow> ('a, 'v, 'e) executor \<Rightarrow> promise \<times> ('a, 'v, 'e) executor" where
  "run parameters s =
     (if isRunning s = 0 then Executor_run parameters s
      else (NewPromise (length (created s)),
            s\<lparr>created := created s @ [None],
              trigger := Some (parameters, length (created s))\<rparr>))"

text \<open>
  Calling the closure of line 27: \<^verbatim>\<open>this.run(...parameters).then(resolve)\<close>, with the
  captured parameters and the captured \<^verbatim>\<open>resolve\<close>.
\<close>

definition call_trigger ::
  "'a \<times> nat \<Rightarrow> ('a, 'v, 'e) executor \<Rightarrow> ('a, 'v, 'e) executor" where
  "call_trigger t s =
     (case run (fst t) s of (p, s1) \<Rightarrow> s1\<lparr>chained := chained s1 @ [(p, snd t)]\<rparr>)"

text \<open>Line 20: \<^verbatim>\<open>this.trigger && this.trigger()\<close>.\<close>

definition fire_trigger :: "('a, 'v, 'e) executor \<Rightarrow> ('a, 'v, 'e) executor" where
  "fire_trigger s = (case trigger s of None \<Rightarrow> s | Some t \<Rightarrow> call_trigger t s)"

text \<open>Line 21: \<^verbatim>\<open>this.trigger = null\<close>.\<close>

definition clear_trigger :: "('a, 'v, 'e) executor \<Rightarrow> ('a, 'v, 'e) executor" where
  "clear_trigger s = s\<lparr>trigger := None\<rparr>"

text \<open>The callback of lines 19 to 22: line 20, then line 21.\<close>

definition then_callback :: "('a, 'v, 'e) executor \<Rightarrow> ('a, 'v, 'e) executor" where
  "then_callback s = clear_trigger (fire_trigger s)"

section \<open>Settlement\<close>

text \<open>
  Calling the \<^verbatim>\<open>resolve\<close> of \<open>NewPromise q\<close> with a value: nothing happens unless the
  promise is pending; otherwise it is fulfilled, and every \<^verbatim>\<open>.then(resolve)\<close> registered on
  it is called with the same value in turn. The first argument bounds the length of such a
  chain of promises.
\<close>

primrec resolve ::
  "nat \<Rightarrow> nat \<Rightarrow> 'v \<Rightarrow> ('a, 'v, 'e) executor \<Rightarrow> ('a, 'v, 'e) executor" where
  "resolve 0 q v s = s"
| "resolve (Suc k) q v s =
     (if q < length (created s) \<and> created s ! q = None
      then fold (\<lambda>q'. resolve k q' v)
             (map snd (filter (\<lambda>c. fst c = NewPromise q) (chained s)))
             (s\<lparr>created := (created s)[q := Some v]\<rparr>)
      else s)"

text \<open>
  The promise of invocation \<open>n\<close> has settled and the reactions of the base class have
  run: the state in which the callback of line 19 starts.
\<close>

definition record_settlement ::
  "nat \<Rightarrow> ('v, 'e) settlement \<Rightarrow> ('a, 'v, 'e) executor \<Rightarrow> ('a, 'v, 'e) executor" where
  "record_settlement n outcome s =
     Executor_settled outcome
       (s\<lparr>invocations := (invocations s)[n := (fst (invocations s ! n), Settled outcome)]\<rparr>)"

text \<open>
  The promise of invocation \<open>n\<close> settles. A promise settles once, so nothing happens
  unless it is pending. The reactions run in the order they were registered: the bookkeeping
  of \<^verbatim>\<open>Executor\<close>, the callback of line 19, then the \<^verbatim>\<open>resolve\<close> of line 27 where the
  invocation was started by a trigger. Lines 19 and 27 pass one function to \<^verbatim>\<open>then\<close>, the
  reaction to fulfilment: when the promise is rejected neither runs.
\<close>

definition settle ::
  "nat \<Rightarrow> ('v, 'e) settlement \<Rightarrow> ('a, 'v, 'e) executor \<Rightarrow> ('a, 'v, 'e) executor" where
  "settle n outcome s =
     (if n < length (invocations s) \<and> snd (invocations s ! n) = Pending then
        (case outcome of
           Rejected e \<Rightarrow> record_settlement n outcome s
         | Fulfilled v \<Rightarrow>
             (let s3 = then_callback (record_settlement n outcome s)
              in fold (\<lambda>q. resolve (Suc (length (created s3))) q v)
                   (map snd (filter (\<lambda>c. fst c = CommandPromise n) (chained s3))) s3))
      else s)"

text \<open>What happens to an executor: a caller calls \<open>run\<close>, or an invocation settles.\<close>

datatype ('a, 'v, 'e) event = Run 'a | Settle nat "('v, 'e) settlement"

fun step :: "('a, 'v, 'e) event \<Rightarrow> ('a, 'v, 'e) executor \<Rightarrow> ('a, 'v, 'e) executor" where
  "step (Run parameters) s = snd (run parameters s)"
| "step (Settle n outcome) s = settle n outcome s"

definition exec :: "('a, 'v, 'e) event list \<Rightarrow> ('a, 'v, 'e) executor \<Rightarrow> ('a, 'v, 'e) executor" where
  "exec evs s = fold step evs s"

section \<open>InfiniteLoader\<close>

text \<open>
  The class \<^verbatim>\<open>InfiniteLoader\<close> is not among the source files: its tests
  (\<^verbatim>\<open>InfiniteLoader.spec.js\<close>) and the README are. The definitions of this section are
  modelled from the spec, 3 and 4.6, and agree with the four tests.
\<close>

text \<open>
  Modelled from the spec: the states of the missing class \<^verbatim>\<open>InfiniteLoader\<close>, "State
  machine over {idle, loading, refreshing}".
\<close>

datatype phase = Idle | Loading | Refreshing

text \<open>
  Modelled from the spec: the fields of the missing class \<^verbatim>\<open>InfiniteLoader\<close> (spec, 3):
  \<open>items\<close>, \<open>pointer\<close>, \<open>perStep\<close>, \<open>isFinished\<close>, the state of the machine,
  and the one pending-refresh slot. \<open>requests\<close> is the command's side: the page requests
  made so far, each with the pointer and the page size it was called with.
\<close>

record 'x loader =
  items :: "'x list"
  pointer :: nat
  perStep :: nat
  isFinished :: bool
  phase :: phase
  pendingRefresh :: bool
  requests :: "(nat \<times> nat) list"

text \<open>
  Modelled from the spec: the missing constructor, \<^verbatim>\<open>InfiniteLoader(command, perStep = 20)\<close>
  (spec, 6).
\<close>

definition new_loader :: "nat \<Rightarrow> 'x loader" where
  "new_loader n =
     \<lparr>items = [], pointer = 0, perStep = n, isFinished = False, phase = Idle,
      pendingRefresh = False, requests = []\<rparr>"

text \<open>
  Modelled from the spec: the missing flag \<^verbatim>\<open>isRunning\<close> of the loader, true while a
  load is in flight, "loading or refreshing".
\<close>

definition loader_isRunning :: "'x loader \<Rightarrow> bool" where
  "loader_isRunning s \<longleftrightarrow> phase s \<noteq> Idle"

text \<open>
  Modelled from the spec: the missing flag \<^verbatim>\<open>isRefreshing\<close>, "true exactly while a
  refresh-tagged load is in flight or queued".
\<close>

definition isRefreshing :: "'x loader \<Rightarrow> bool" where
  "isRefreshing s \<longleftrightarrow> phase s = Refreshing \<or> pendingRefresh s"

text \<open>
  Modelled from the spec: the missing call of the command, "requests a page at
  \<^verbatim>\<open>pointer\<close> with size \<^verbatim>\<open>perStep\<close>".
\<close>

definition request_page :: "'x loader \<Rightarrow> 'x loader" where
  "request_page s = s\<lparr>requests := requests s @ [(pointer s, perStep s)]\<rparr>"

text \<open>
  Modelled from the spec: the missing method \<^verbatim>\<open>next()\<close>. It does nothing while a load is
  running (the test "handles multiple next") and nothing once the loader is finished (the
  README: it "won't trigger anymore"); otherwise it requests a page at once.
\<close>

definition loader_next :: "'x loader \<Rightarrow> 'x loader" where
  "loader_next s =
     (if loader_isRunning s \<or> isFinished s then s
      else request_page (s\<lparr>phase := Loading\<rparr>))"

text \<open>
  Modelled from the spec: the start of a refresh in the missing method \<^verbatim>\<open>refresh()\<close>:
  the pointer goes back to zero, \<open>isFinished\<close> is cleared and a page is requested, tagged
  as refreshing. The test "refreshes" reads twenty items right after \<^verbatim>\<open>refresh()\<close> and ten
  once the load has settled, so the items stay until the result overwrites them.
\<close>

definition start_refresh :: "'x loader \<Rightarrow> 'x loader" where
  "start_refresh s = request_page (s\<lparr>pointer := 0, isFinished := False, phase := Refreshing\<rparr>)"

text \<open>
  Modelled from the spec: the missing method \<^verbatim>\<open>refresh()\<close>. While a load is running it
  "records a pending-refresh request": the slot is a flag, so writing it again changes
  nothing.
\<close>

definition refresh :: "'x loader \<Rightarrow> 'x loader" where
  "refresh s = (if loader_isRunning s then s\<lparr>pendingRefresh := True\<rparr> else start_refresh s)"

text \<open>
  Modelled from the spec: what the missing class does with the page of a successful load.
  It "appends the returned elements to \<^verbatim>\<open>items\<close>" (a refresh overwrites them), "advances
  \<^verbatim>\<open>pointer\<close> by the number of elements returned, and sets \<^verbatim>\<open>isFinished = true\<close> iff
  the returned count is strictly less than \<^verbatim>\<open>perStep\<close>".
\<close>

definition page_loaded :: "'x list \<Rightarrow> 'x loader \<Rightarrow> 'x loader" where
  "page_loaded page s =
     s\<lparr>items := (if phase s = Refreshing then page else items s @ page),
       pointer := pointer s + length page,
       isFinished := (if length page < perStep s then True else isFinished s)\<rparr>"

text \<open>
  Modelled from the spec: the settlement of the load in flight of the missing class, with
  the page (\<open>Some page\<close>) or with a failure (\<open>None\<close>). "When the currently running
  load settles, if a refresh was pending, a refresh starts immediately, the slot is
  cleared."
\<close>

definition load_settled :: "'x list option \<Rightarrow> 'x loader \<Rightarrow> 'x loader" where
  "load_settled outcome s =
     (if loader_isRunning s then
        (let s1 = (case outcome of Some page \<Rightarrow> page_loaded page s | None \<Rightarrow> s);
             s2 = s1\<lparr>phase := Idle\<rparr>
         in if pendingRefresh s2 then start_refresh (s2\<lparr>pendingRefresh := False\<rparr>) else s2)
      else s)"

text \<open>What happens to a loader: a call of one of its two methods, or the load settles.\<close>

datatype 'x loader_event = Next | Refresh | Loaded "'x list option"

fun loader_step :: "'x loader_event \<Rightarrow> 'x loader \<Rightarrow> 'x loader" where
  "loader_step Next s = loader_next s"
| "loader_step Refresh s = refresh s"
| "loader_step (Loaded outcome) s = load_settled outcome s"

definition loader_exec :: "'x loader_event list \<Rightarrow> 'x loader \<Rightarrow> 'x loader" where
  "loader_exec evs s = fold loader_step evs s"

section \<open>Notions used in the proofs\<close>

text \<open>The number of promises of line 26 that are pending.\<close>

definition pending_count :: "('a, 'v, 'e) executor \<Rightarrow> nat" where
  "pending_count s = length (filter (\<lambda>x. x = None) (created s))"

text \<open>
  A promise of line 26 can be fulfilled through its \<^verbatim>\<open>resolve\<close> only, and the
  \<^verbatim>\<open>resolve\<close> lives in one closure. \<open>abandoned q s\<close> says that \<open>NewPromise q\<close> is
  pending and that nothing will call its \<^verbatim>\<open>resolve\<close>: the slot does not hold its closure,
  and every \<^verbatim>\<open>.then(resolve)\<close> that names it is registered on a promise of the command
  that has settled already.
\<close>

definition source_settled :: "('a, 'v, 'e) executor \<Rightarrow> promise \<Rightarrow> bool" where
  "source_settled s p =
     (case p of
        CommandPromise m \<Rightarrow> m < length (invocations s) \<and> snd (invocations s ! m) \<noteq> Pending
      | NewPromise r \<Rightarrow> False)"

definition abandoned :: "nat \<Rightarrow> ('a, 'v, 'e) executor \<Rightarrow> bool" where
  "abandoned q s \<longleftrightarrow>
     q < length (created s) \<and> created s ! q = None
     \<and> (case trigger s of None \<Rightarrow> True | Some t \<Rightarrow> snd t \<noteq> q)
     \<and> (\<forall>c \<in> set (chained s). snd c = q \<longrightarrow> source_settled s (fst c))"

text \<open>
  In every state an executor reaches, a \<^verbatim>\<open>resolve\<close> held by the slot or registered by
  line 27 belongs to a promise that line 26 has made.
\<close>

definition targets_exist :: "('a, 'v, 'e) executor \<Rightarrow> bool" where
  "targets_exist s \<longleftrightarrow>
     (\<forall>c \<in> set (chained s). snd c < length (created s))
     \<and> (case trigger s of None \<Rightarrow> True | Some t \<Rightarrow> snd t < length (created s))"

section \<open>What resolving a promise leaves alone\<close>

text \<open>
  Calling a \<^verbatim>\<open>resolve\<close> changes the promises of line 26 and nothing else: no invocation
  starts, and the fields of the executor keep their values.
\<close>

lemma fold_created_only:
  assumes "\<And>x s. f x s = s\<lparr>created := created (f x s)\<rparr>"
  shows "fold f xs s = s\<lparr>created := created (fold f xs s)\<rparr>"
proof (induction xs arbitrary: s)
  case Nil
  show ?case by simp
next
  case (Cons x xs)
  have "fold f (x # xs) s = fold f xs (f x s)" by simp
  also have "\<dots> = (f x s)\<lparr>created := created (fold f xs (f x s))\<rparr>" by (rule Cons.IH)
  also have "\<dots> = (s\<lparr>created := created (f x s)\<rparr>)\<lparr>created := created (fold f xs (f x s))\<rparr>"
    using assms [of x s] by simp
  also have "\<dots> = s\<lparr>created := created (fold f (x # xs) s)\<rparr>" by simp
  finally show ?case .
qed

lemma resolve_created_only:
  "resolve k q v s = s\<lparr>created := created (resolve k q v s)\<rparr>"
proof (induction k arbitrary: q s)
  case 0
  show ?case by simp
next
  case (Suc k)
  show ?case
  proof (cases "q < length (created s) \<and> created s ! q = None")
    case False
    then show ?thesis by auto
  next
    case True
    let ?s1 = "s\<lparr>created := (created s)[q := Some v]\<rparr>"
    let ?ts = "map snd (filter (\<lambda>c. fst c = NewPromise q) (chained s))"
    have r: "resolve (Suc k) q v s = fold (\<lambda>q'. resolve k q' v) ?ts ?s1"
      using True by simp
    have "fold (\<lambda>q'. resolve k q' v) ?ts ?s1
            = ?s1\<lparr>created := created (fold (\<lambda>q'. resolve k q' v) ?ts ?s1)\<rparr>"
      by (rule fold_created_only) (rule Suc.IH)
    then show ?thesis unfolding r by simp
  qed
qed

lemma resolve_fields [simp]:
  "invocations (resolve k q v s) = invocations s"
  "trigger (resolve k q v s) = trigger s"
  "chained (resolve k q v s) = chained s"
  "isRunning (resolve k q v s) = isRunning s"
  "runCount (resolve k q v s) = runCount s"
  by (subst resolve_created_only, simp)+

lemma fold_resolve_created_only:
  "fold (\<lambda>q. resolve k q v) qs s = s\<lparr>created := created (fold (\<lambda>q. resolve k q v) qs s)\<rparr>"
  by (rule fold_created_only) (rule resolve_created_only)

lemma fold_resolve_fields [simp]:
  "invocations (fold (\<lambda>q. resolve k q v) qs s) = invocations s"
  "trigger (fold (\<lambda>q. resolve k q v) qs s) = trigger s"
  "chained (fold (\<lambda>q. resolve k q v) qs s) = chained s"
  "isRunning (fold (\<lambda>q. resolve k q v) qs s) = isRunning s"
  "runCount (fold (\<lambda>q. resolve k q v) qs s) = runCount s"
  by (subst fold_resolve_created_only, simp)+

lemma length_created_resolve [simp]:
  fixes s :: "('a, 'v, 'e) executor"
  shows "length (created (resolve k q v s)) = length (created s)"
proof (induction k arbitrary: q s)
  case 0
  show ?case by simp
next
  case (Suc k)
  have fold_len: "length (created (fold (\<lambda>q'. resolve k q' v) qs s')) = length (created s')"
    for qs and s' :: "('a, 'v, 'e) executor"
    by (induction qs arbitrary: s') (simp_all add: Suc.IH)
  show ?case by (simp add: fold_len)
qed

lemma length_created_fold_resolve [simp]:
  "length (created (fold (\<lambda>q. resolve k q v) qs s)) = length (created s)"
  by (induction qs arbitrary: s) simp_all

section \<open>The bound on chains of promises is enough\<close>

text \<open>
  Each step down a chain fulfils a promise that was pending, so a chain is no longer than
  the number of pending promises. \<open>settle\<close> calls \<open>resolve\<close> with a bound above
  the number of promises of line 26: a larger bound gives the same state.
\<close>

lemma fulfil_one_fewer_pending:
  "q < length xs \<Longrightarrow> xs ! q = None \<Longrightarrow>
     Suc (length (filter (\<lambda>x. x = None) (xs[q := Some v]))) = length (filter (\<lambda>x. x = None) xs)"
proof (induction xs arbitrary: q)
  case Nil
  then show ?case by simp
next
  case (Cons x xs)
  then show ?case by (cases q) simp_all
qed

lemma pending_count_fold:
  fixes s :: "('a, 'v, 'e) executor"
  assumes "\<And>t (s :: ('a, 'v, 'e) executor). pending_count (f t s) \<le> pending_count s"
  shows "pending_count (fold f ts s) \<le> pending_count s"
proof (induction ts arbitrary: s)
  case Nil
  show ?case by simp
next
  case (Cons t ts)
  have "pending_count (fold f (t # ts) s) \<le> pending_count (f t s)"
    using Cons.IH [of "f t s"] by simp
  also have "\<dots> \<le> pending_count s" by (rule assms)
  finally show ?case .
qed

lemma pending_count_resolve:
  fixes s :: "('a, 'v, 'e) executor"
  shows "pending_count (resolve k q v s) \<le> pending_count s"
proof (induction k arbitrary: q s)
  case 0
  show ?case by simp
next
  case (Suc k)
  show ?case
  proof (cases "q < length (created s) \<and> created s ! q = None")
    case False
    then show ?thesis by auto
  next
    case True
    let ?s1 = "s\<lparr>created := (created s)[q := Some v]\<rparr>"
    let ?ts = "map snd (filter (\<lambda>c. fst c = NewPromise q) (chained s))"
    have "pending_count (fold (\<lambda>t. resolve k t v) ?ts ?s1) \<le> pending_count ?s1"
      by (rule pending_count_fold) (rule Suc.IH)
    also have "\<dots> \<le> pending_count s"
      using fulfil_one_fewer_pending [of q "created s" v] True by (simp add: pending_count_def)
    finally show ?thesis using True by simp
  qed
qed

lemma resolve_enough_fuel:
  fixes s :: "('a, 'v, 'e) executor"
  assumes "pending_count s \<le> k"
  shows "resolve (Suc k) q v s = resolve k q v s"
  using assms
proof (induction k arbitrary: q s)
  case 0
  then have "\<not> (q < length (created s) \<and> created s ! q = None)"
    by (auto simp: pending_count_def filter_empty_conv in_set_conv_nth)
  then show ?case by auto
next
  case (Suc k)
  show ?case
  proof (cases "q < length (created s) \<and> created s ! q = None")
    case False
    then show ?thesis by auto
  next
    case True
    let ?s1 = "s\<lparr>created := (created s)[q := Some v]\<rparr>"
    let ?ts = "map snd (filter (\<lambda>c. fst c = NewPromise q) (chained s))"
    have s1: "pending_count ?s1 \<le> k"
      using fulfil_one_fewer_pending [of q "created s" v] True Suc.prems
      by (simp add: pending_count_def)
    have "fold (\<lambda>t. resolve (Suc k) t v) ts s' = fold (\<lambda>t. resolve k t v) ts s'"
      if "pending_count s' \<le> k" for ts and s' :: "('a, 'v, 'e) executor"
      using that
    proof (induction ts arbitrary: s')
      case Nil
      show ?case by simp
    next
      case (Cons t ts)
      have same: "resolve (Suc k) t v s' = resolve k t v s'"
        by (rule Suc.IH [OF Cons.prems])
      have "pending_count (resolve k t v s') \<le> k"
        using pending_count_resolve [of k t v s'] Cons.prems by simp
      then have "fold (\<lambda>t. resolve (Suc k) t v) ts (resolve k t v s')
                   = fold (\<lambda>t. resolve k t v) ts (resolve k t v s')"
        by (rule Cons.IH)
      then show ?case
        by (simp only: fold_simps same)
    qed
    from this [OF s1, of ?ts] show ?thesis
      using True by simp
  qed
qed

lemma pending_count_le_length:
  "pending_count s \<le> length (created s)"
  by (simp add: pending_count_def)

lemma resolve_more_fuel:
  fixes s :: "('a, 'v, 'e) executor"
  shows "resolve (Suc (length (created s)) + j) q v s = resolve (Suc (length (created s))) q v s"
proof (induction j)
  case 0
  show ?case by simp
next
  case (Suc j)
  have "pending_count s \<le> Suc (length (created s)) + j"
    using pending_count_le_length [of s] by simp
  then have "resolve (Suc (Suc (length (created s)) + j)) q v s
               = resolve (Suc (length (created s)) + j) q v s"
    by (rule resolve_enough_fuel)
  then show ?case
    using Suc.IH by simp
qed

section \<open>The two branches of run and the two ways to settle\<close>

lemma run_running:
  "isRunning s \<noteq> 0 \<Longrightarrow>
     run parameters s =
       (NewPromise (length (created s)),
        s\<lparr>created := created s @ [None], trigger := Some (parameters, length (created s))\<rparr>)"
  by (simp add: run_def)

lemma run_not_running:
  "isRunning s = 0 \<Longrightarrow> run parameters s = Executor_run parameters s"
  by (simp add: run_def)

lemma settle_fulfilled:
  assumes "n < length (invocations s)" and "snd (invocations s ! n) = Pending"
  shows "settle n (Fulfilled v) s =
           (let s3 = then_callback (Executor_settled (Fulfilled v)
                       (s\<lparr>invocations := (invocations s)[n := (fst (invocations s ! n), Settled (Fulfilled v))]\<rparr>))
            in fold (\<lambda>q. resolve (Suc (length (created s3))) q v)
                 (map snd (filter (\<lambda>c. fst c = CommandPromise n) (chained s3))) s3)"
  using assms by (simp add: settle_def record_settlement_def Let_def)

lemma settle_rejected:
  assumes "n < length (invocations s)" and "snd (invocations s ! n) = Pending"
  shows "settle n (Rejected e) s =
           Executor_settled (Rejected e)
             (s\<lparr>invocations := (invocations s)[n := (fst (invocations s ! n), Settled (Rejected e))]\<rparr>)"
  using assms by (simp add: settle_def record_settlement_def Let_def)

lemma then_callback_queued:
  assumes "trigger s = Some (b, q)" and "isRunning s = 0"
  shows "then_callback s =
           s\<lparr>runCount := runCount s + 1, isRunning := 1, wasRun := True,
             invocations := invocations s @ [(b, Pending)],
             chained := chained s @ [(CommandPromise (length (invocations s)), q)],
             trigger := None\<rparr>"
  using assms
  by (simp add: then_callback_def fire_trigger_def clear_trigger_def call_trigger_def run_def
      Executor_run_def)

lemma then_callback_empty:
  "trigger s = None \<Longrightarrow> then_callback s = s"
  by (simp add: then_callback_def fire_trigger_def clear_trigger_def)

lemma map_fst_settled:
  "map fst (xs[n := (fst (xs ! n), y)]) = map fst xs"
proof (cases "n < length xs")
  case True
  then show ?thesis by (simp add: map_update list_update_same_conv)
next
  case False
  then have "length xs \<le> n" by simp
  then have "xs[n := (fst (xs ! n), y)] = xs" by (rule list_update_beyond)
  then show ?thesis by simp
qed

text \<open>The definitions that evaluating a run of events unfolds.\<close>

lemmas ladder_defs = exec_def run_def Executor_run_def new_executor_def settle_def
  record_settlement_def
  Executor_settled_def then_callback_def fire_trigger_def clear_trigger_def call_trigger_def

section \<open>Promises whose resolve is out of reach\<close>

lemma resolve_other:
  fixes s :: "('a, 'v, 'e) executor"
  assumes "q' \<noteq> q"
    and "\<forall>c \<in> set (chained s). snd c = q \<longrightarrow> (\<forall>r. fst c \<noteq> NewPromise r)"
  shows "created (resolve k q' v s) ! q = created s ! q"
  using assms
proof (induction k arbitrary: q' s)
  case 0
  show ?case by simp
next
  case (Suc k)
  show ?case
  proof (cases "q' < length (created s) \<and> created s ! q' = None")
    case False
    then show ?thesis by auto
  next
    case True
    let ?s1 = "s\<lparr>created := (created s)[q' := Some v]\<rparr>"
    let ?ts = "map snd (filter (\<lambda>c. fst c = NewPromise q') (chained s))"
    have ts: "\<forall>t \<in> set ?ts. t \<noteq> q"
      using Suc.prems(2) by auto
    have inner: "created (resolve k t v s') ! q = created s' ! q"
      if "t \<noteq> q" and "chained s' = chained s" for t and s' :: "('a, 'v, 'e) executor"
      using that Suc.prems(2) by (intro Suc.IH) simp_all
    have "created (fold (\<lambda>t. resolve k t v) ts s') ! q = created s' ! q"
      if "\<forall>t \<in> set ts. t \<noteq> q" and "chained s' = chained s"
      for ts and s' :: "('a, 'v, 'e) executor"
      using that
    proof (induction ts arbitrary: s')
      case Nil
      show ?case by simp
    next
      case (Cons x xs)
      have "created (fold (\<lambda>t. resolve k t v) (x # xs) s') ! q
              = created (fold (\<lambda>t. resolve k t v) xs (resolve k x v s')) ! q" by simp
      also have "\<dots> = created (resolve k x v s') ! q"
        using Cons.prems by (intro Cons.IH) simp_all
      also have "\<dots> = created s' ! q"
        using Cons.prems by (intro inner) simp_all
      finally show ?case .
    qed
    from this [OF ts, of ?s1]
    have "created (fold (\<lambda>t. resolve k t v) ?ts ?s1) ! q = created ?s1 ! q" by simp
    also have "\<dots> = created s ! q"
      using Suc.prems(1) by simp
    finally show ?thesis using True by simp
  qed
qed

lemma fold_resolve_others:
  fixes s :: "('a, 'v, 'e) executor"
  assumes "\<forall>t \<in> set ts. t \<noteq> q"
    and "\<forall>c \<in> set (chained s). snd c = q \<longrightarrow> (\<forall>r. fst c \<noteq> NewPromise r)"
  shows "created (fold (\<lambda>t. resolve k t v) ts s) ! q = created s ! q"
  using assms
proof (induction ts arbitrary: s)
  case Nil
  show ?case by simp
next
  case (Cons x xs)
  have "created (fold (\<lambda>t. resolve k t v) (x # xs) s) ! q
          = created (fold (\<lambda>t. resolve k t v) xs (resolve k x v s)) ! q" by simp
  also have "\<dots> = created (resolve k x v s) ! q"
    using Cons.prems by (intro Cons.IH) simp_all
  also have "\<dots> = created s ! q"
    using Cons.prems by (intro resolve_other) simp_all
  finally show ?case .
qed

lemma source_settledD:
  "source_settled s p \<Longrightarrow> \<exists>m. p = CommandPromise m \<and> m < length (invocations s)
       \<and> snd (invocations s ! m) \<noteq> Pending"
  by (cases p) (simp_all add: source_settled_def)

lemma abandoned_run:
  assumes "abandoned q s"
  shows "abandoned q (snd (run parameters s))"
proof (cases "isRunning s = 0")
  case True
  have "source_settled (snd (Executor_run parameters s)) p" if "source_settled s p" for p
    using that by (cases p) (auto simp: source_settled_def Executor_run_def nth_append)
  then show ?thesis
    using assms True by (auto simp: abandoned_def run_def Executor_run_def nth_append
        source_settled_def split: option.splits promise.splits)
next
  case False
  then show ?thesis
    using assms by (auto simp: abandoned_def run_def nth_append source_settled_def
        split: option.splits promise.splits)
qed

lemma run_chained [simp]:
  "chained (snd (run parameters s)) = chained s"
  by (simp add: run_def Executor_run_def)

lemma abandoned_then_callback:
  assumes "abandoned q s"
  shows "abandoned q (then_callback s)"
    and "\<forall>c \<in> set (chained (then_callback s)). snd c = q \<longrightarrow> c \<in> set (chained s)"
proof -
  show "abandoned q (then_callback s)"
  proof (cases "trigger s")
    case None
    then show ?thesis
      using assms by (simp add: then_callback_empty)
  next
    case (Some t)
    then have t: "snd t \<noteq> q"
      using assms by (simp add: abandoned_def)
    obtain p s1 where r: "run (fst t) s = (p, s1)" by (cases "run (fst t) s")
    have "abandoned q s1"
      using abandoned_run [OF assms, of "fst t"] r by simp
    then have "abandoned q (s1\<lparr>chained := chained s1 @ [(p, snd t)], trigger := None\<rparr>)"
      using t by (auto simp: abandoned_def source_settled_def split: promise.splits)
    then show ?thesis
      using Some r by (simp add: then_callback_def fire_trigger_def clear_trigger_def
          call_trigger_def)
  qed
  show "\<forall>c \<in> set (chained (then_callback s)). snd c = q \<longrightarrow> c \<in> set (chained s)"
  proof (cases "trigger s")
    case None
    then show ?thesis by (simp add: then_callback_empty)
  next
    case (Some t)
    then have t: "snd t \<noteq> q"
      using assms by (simp add: abandoned_def)
    obtain p s1 where r: "run (fst t) s = (p, s1)" by (cases "run (fst t) s")
    have "chained s1 = chained s"
      using run_chained [of "fst t" s] r by simp
    then show ?thesis
      using Some r t by (auto simp: then_callback_def fire_trigger_def clear_trigger_def
          call_trigger_def)
  qed
qed

lemma abandoned_cong:
  assumes "abandoned q s" and "invocations s' = invocations s" and "trigger s' = trigger s"
    and "chained s' = chained s" and "length (created s') = length (created s)"
    and "created s' ! q = created s ! q"
  shows "abandoned q s'"
  using assms(1) unfolding abandoned_def source_settled_def assms(2-6) by blast

lemma abandoned_settle:
  assumes "abandoned q s"
  shows "abandoned q (settle n outcome s)"
proof (cases "n < length (invocations s) \<and> snd (invocations s ! n) = Pending")
  case False
  then show ?thesis
    using assms by (auto simp: settle_def record_settlement_def)
next
  case True
  let ?s2 = "Executor_settled outcome
               (s\<lparr>invocations := (invocations s)[n := (fst (invocations s ! n), Settled outcome)]\<rparr>)"
  have fields: "created ?s2 = created s" "trigger ?s2 = trigger s" "chained ?s2 = chained s"
    "invocations ?s2 = (invocations s)[n := (fst (invocations s ! n), Settled outcome)]"
    by (simp_all add: Executor_settled_def split: settlement.splits)
  have src: "source_settled ?s2 p" if "source_settled s p" for p
    using that True
    by (cases p) (auto simp: source_settled_def fields nth_list_update split: if_splits)
  have no_link: "(CommandPromise n, q) \<notin> set (chained s)"
  proof
    assume "(CommandPromise n, q) \<in> set (chained s)"
    then have "source_settled s (CommandPromise n)"
      using assms by (auto simp: abandoned_def)
    then show False
      using True by (simp add: source_settled_def)
  qed
  have ab2: "abandoned q ?s2"
    using assms src by (auto simp: abandoned_def fields)
  show ?thesis
  proof (cases outcome)
    case (Rejected e)
    then show ?thesis
      using ab2 True by (simp add: settle_def record_settlement_def)
  next
    case (Fulfilled v)
    let ?s3 = "then_callback ?s2"
    let ?ts = "map snd (filter (\<lambda>c. fst c = CommandPromise n) (chained ?s3))"
    let ?s4 = "fold (\<lambda>t. resolve (Suc (length (created ?s3))) t v) ?ts ?s3"
    have ab3: "abandoned q ?s3"
      by (rule abandoned_then_callback(1) [OF ab2])
    have links: "\<forall>c \<in> set (chained ?s3). snd c = q \<longrightarrow> c \<in> set (chained s)"
      using abandoned_then_callback(2) [OF ab2] by (simp add: fields)
    have ts: "\<forall>t \<in> set ?ts. t \<noteq> q"
      using links no_link by auto
    have cmd: "\<forall>c \<in> set (chained ?s3). snd c = q \<longrightarrow> (\<forall>r. fst c \<noteq> NewPromise r)"
      using ab3 by (auto simp: abandoned_def source_settled_def)
    have keep: "created ?s4 ! q = created ?s3 ! q"
      by (rule fold_resolve_others [OF ts cmd])
    have "abandoned q ?s4"
      by (rule abandoned_cong [OF ab3 _ _ _ _ keep]) simp_all
    moreover have "settle n outcome s = ?s4"
      using True Fulfilled by (simp add: settle_def record_settlement_def Let_def)
    ultimately show ?thesis by simp
  qed
qed

lemma abandoned_step:
  "abandoned q s \<Longrightarrow> abandoned q (step ev s)"
  by (cases ev) (simp_all add: abandoned_run abandoned_settle)

lemma abandoned_exec:
  "abandoned q s \<Longrightarrow> abandoned q (exec evs s)"
  unfolding exec_def
  by (induction evs arbitrary: s) (simp_all add: abandoned_step)

lemma abandoned_stays_pending:
  "abandoned q s \<Longrightarrow> created (exec evs s) ! q = None"
  using abandoned_exec [of q s evs] by (simp add: abandoned_def)

lemma run_created_grows:
  "length (created s) \<le> length (created (snd (run parameters s)))"
  by (simp add: run_def Executor_run_def)

lemma targets_exist_run:
  "targets_exist s \<Longrightarrow> targets_exist (snd (run parameters s))"
  by (auto simp: targets_exist_def run_def Executor_run_def split: option.splits)

lemma targets_exist_then_callback:
  assumes "targets_exist s"
  shows "targets_exist (then_callback s)"
proof (cases "trigger s")
  case None
  then show ?thesis
    using assms by (simp add: then_callback_empty)
next
  case (Some t)
  then have t: "snd t < length (created s)"
    using assms by (simp add: targets_exist_def)
  obtain p s1 where r: "run (fst t) s = (p, s1)" by (cases "run (fst t) s")
  have "targets_exist s1" and "length (created s) \<le> length (created s1)"
    using targets_exist_run [OF assms, of "fst t"] run_created_grows [of s "fst t"] r
    by simp_all
  then have "targets_exist (s1\<lparr>chained := chained s1 @ [(p, snd t)], trigger := None\<rparr>)"
    using t by (auto simp: targets_exist_def)
  then show ?thesis
    using Some r by (simp add: then_callback_def fire_trigger_def clear_trigger_def
        call_trigger_def)
qed

lemma targets_exist_cong:
  assumes "targets_exist s" and "chained s' = chained s" and "trigger s' = trigger s"
    and "length (created s') = length (created s)"
  shows "targets_exist s'"
  using assms(1) unfolding targets_exist_def assms(2-4) by blast

lemma targets_exist_settle:
  assumes "targets_exist s"
  shows "targets_exist (settle n outcome s)"
proof (cases "n < length (invocations s) \<and> snd (invocations s ! n) = Pending")
  case False
  then show ?thesis
    using assms by (auto simp: settle_def record_settlement_def)
next
  case True
  let ?s2 = "Executor_settled outcome
               (s\<lparr>invocations := (invocations s)[n := (fst (invocations s ! n), Settled outcome)]\<rparr>)"
  have ok2: "targets_exist ?s2"
    using assms
    by (cases outcome) (auto simp: targets_exist_def Executor_settled_def split: option.splits)
  show ?thesis
  proof (cases outcome)
    case (Rejected e)
    then show ?thesis
      using ok2 True by (simp add: settle_def record_settlement_def)
  next
    case (Fulfilled v)
    let ?s3 = "then_callback ?s2"
    let ?ts = "map snd (filter (\<lambda>c. fst c = CommandPromise n) (chained ?s3))"
    let ?s4 = "fold (\<lambda>t. resolve (Suc (length (created ?s3))) t v) ?ts ?s3"
    have ok3: "targets_exist ?s3"
      by (rule targets_exist_then_callback [OF ok2])
    have "targets_exist ?s4"
      by (rule targets_exist_cong [OF ok3]) simp_all
    moreover have "settle n outcome s = ?s4"
      using True Fulfilled by (simp add: settle_def record_settlement_def Let_def)
    ultimately show ?thesis by simp
  qed
qed

lemma targets_exist_exec:
  "targets_exist s \<Longrightarrow> targets_exist (exec evs s)"
  unfolding exec_def
proof (induction evs arbitrary: s)
  case Nil
  then show ?case by simp
next
  case (Cons ev evs)
  have "targets_exist (step ev s)"
    using Cons.prems by (cases ev) (simp_all add: targets_exist_run targets_exist_settle)
  then show ?case
    by (simp add: Cons.IH)
qed

lemma targets_exist_new:
  "targets_exist new_executor"
  by (simp add: targets_exist_def new_executor_def)

lemma exec_append:
  "exec (evs @ evs') s = exec evs' (exec evs s)"
  by (simp add: exec_def)

section \<open>LadderExecutor: a call while nothing is running\<close>

text \<open>
  Claim C6. A call of \<open>run\<close> while the executor is not running takes the first branch
  (lines 17 to 24): it is the run of the base class, so it starts one invocation of the
  command with the call's parameters, at once; the promise it returns is the one the base
  class returned, that of the new invocation; and nothing is queued: the trigger, the
  promises of line 26 and the registrations of line 27 are what they were.
\<close>

theorem run_while_idle_delegates:
  assumes "isRunning s = 0"
  shows "run parameters s = Executor_run parameters s
       \<and> fst (run parameters s) = CommandPromise (length (invocations s))
       \<and> invocations (snd (run parameters s)) = invocations s @ [(parameters, Pending)]
       \<and> trigger (snd (run parameters s)) = trigger s
       \<and> created (snd (run parameters s)) = created s
       \<and> chained (snd (run parameters s)) = chained s"
  using assms by (simp add: run_def Executor_run_def)

theorem run_while_idle_delegates_witness:
  "isRunning (new_executor :: (string, nat, string) executor) = 0
   \<and> run ''a'' (new_executor :: (string, nat, string) executor) = Executor_run ''a'' new_executor
   \<and> fst (run ''a'' (new_executor :: (string, nat, string) executor)) = CommandPromise 0
   \<and> invocations (snd (run ''a'' (new_executor :: (string, nat, string) executor))) = [(''a'', Pending)]
   \<and> trigger (snd (run ''a'' (new_executor :: (string, nat, string) executor))) = None
   \<and> created (snd (run ''a'' (new_executor :: (string, nat, string) executor))) = []"
proof -
  have idle: "isRunning (new_executor :: (string, nat, string) executor) = 0"
    by (simp add: new_executor_def)
  show ?thesis
    using idle run_while_idle_delegates [OF idle, of "''a''"]
    by (simp add: new_executor_def Executor_run_def)
qed

section \<open>LadderExecutor: calls while an invocation is in flight\<close>

text \<open>
  One invocation is in flight and three calls \<open>run a\<close>, \<open>run b\<close>, \<open>run c\<close>
  follow. None of them starts an invocation. The slot is one field: each call writes its own
  closure over the one before, so after the three calls it holds the parameters of the last.
  When the invocation in flight is then fulfilled, one follow-up starts, with the parameters
  \<open>c\<close> of the last call, and the slot is empty afterwards.
\<close>

lemma three_calls_then_fulfilled:
  assumes "isRunning s = 1" and "n < length (invocations s)"
    and "snd (invocations s ! n) = Pending"
  shows "invocations (exec [Run a, Run b, Run c] s) = invocations s
       \<and> trigger (exec [Run a] s) = Some (a, length (created s))
       \<and> trigger (exec [Run a, Run b] s) = Some (b, length (created s) + 1)
       \<and> trigger (exec [Run a, Run b, Run c] s) = Some (c, length (created s) + 2)
       \<and> map fst (invocations (exec [Run a, Run b, Run c, Settle n (Fulfilled v)] s))
           = map fst (invocations s) @ [c]
       \<and> trigger (exec [Run a, Run b, Run c, Settle n (Fulfilled v)] s) = None"
proof -
  let ?s3 = "exec [Run a, Run b, Run c] s"
  have s3: "?s3 = s\<lparr>created := created s @ [None, None, None],
                     trigger := Some (c, length (created s) + 2)\<rparr>"
    using assms(1) by (simp add: exec_def run_def)
  have t1: "trigger (exec [Run a] s) = Some (a, length (created s))"
    using assms(1) by (simp add: exec_def run_def)
  have t2: "trigger (exec [Run a, Run b] s) = Some (b, length (created s) + 1)"
    using assms(1) by (simp add: exec_def run_def)
  have split: "exec [Run a, Run b, Run c, Settle n (Fulfilled v)] s = settle n (Fulfilled v) ?s3"
    by (simp add: exec_def)
  let ?s4 = "Executor_settled (Fulfilled v)
               (?s3\<lparr>invocations := (invocations ?s3)[n := (fst (invocations ?s3 ! n), Settled (Fulfilled v))]\<rparr>)"
  have trig: "trigger ?s4 = Some (c, length (created s) + 2)" and idle: "isRunning ?s4 = 0"
    using assms(1) by (simp_all add: s3 Executor_settled_def)
  have cb: "invocations (then_callback ?s4) = invocations ?s4 @ [(c, Pending)]"
       "trigger (then_callback ?s4) = None"
    by (simp_all add: then_callback_queued [OF trig idle])
  have inv4: "map fst (invocations ?s4) = map fst (invocations s)"
    by (simp add: Executor_settled_def map_fst_settled) (simp add: s3)
  have pend: "n < length (invocations ?s3)" "snd (invocations ?s3 ! n) = Pending"
    using assms by (simp_all add: s3)
  have "map fst (invocations (settle n (Fulfilled v) ?s3)) = map fst (invocations s) @ [c]"
    unfolding settle_fulfilled [OF pend] Let_def
    by (simp only: fold_resolve_fields cb map_append inv4) simp
  moreover have "trigger (settle n (Fulfilled v) ?s3) = None"
    unfolding settle_fulfilled [OF pend] Let_def
    by (simp only: fold_resolve_fields cb)
  ultimately show ?thesis
    using s3 t1 t2 split by simp
qed

text \<open>
  When the invocation in flight is rejected instead, the callback of line 19 does not run:
  the invocations are the ones there were, the slot still holds the trigger of the last
  call, and the executor is idle.
\<close>

lemma three_calls_then_rejected:
  assumes "isRunning s = 1" and "n < length (invocations s)"
    and "snd (invocations s ! n) = Pending"
  shows "map fst (invocations (exec [Run a, Run b, Run c, Settle n (Rejected e)] s))
           = map fst (invocations s)
       \<and> trigger (exec [Run a, Run b, Run c, Settle n (Rejected e)] s)
           = Some (c, length (created s) + 2)
       \<and> isRunning (exec [Run a, Run b, Run c, Settle n (Rejected e)] s) = 0"
proof -
  let ?s3 = "exec [Run a, Run b, Run c] s"
  have s3: "?s3 = s\<lparr>created := created s @ [None, None, None],
                     trigger := Some (c, length (created s) + 2)\<rparr>"
    using assms(1) by (simp add: exec_def run_def)
  have split: "exec [Run a, Run b, Run c, Settle n (Rejected e)] s = settle n (Rejected e) ?s3"
    by (simp add: exec_def)
  have pend: "n < length (invocations ?s3)" "snd (invocations ?s3 ! n) = Pending"
    using assms by (simp_all add: s3)
  have "map fst (invocations (settle n (Rejected e) ?s3)) = map fst (invocations s)"
    unfolding settle_rejected [OF pend]
    by (simp add: Executor_settled_def map_fst_settled) (simp add: s3)
  moreover have "trigger (settle n (Rejected e) ?s3) = Some (c, length (created s) + 2)"
    and "isRunning (settle n (Rejected e) ?s3) = 0"
    unfolding settle_rejected [OF pend]
    using assms(1) by (simp_all add: Executor_settled_def s3)
  ultimately show ?thesis
    unfolding split by simp
qed

text \<open>
  Claim C3 at the input where the code departs from it: the live search of the README on a
  new executor. \<open>run a\<close> starts an invocation and three calls \<open>run b\<close>,
  \<open>run c\<close>, \<open>run d\<close> follow while it is in flight; they start nothing and the
  slot holds the trigger of \<open>d\<close>, the last. The invocation is rejected: it has settled
  and the executor is idle, but the command has been invoked once, not twice, and the trigger
  of \<open>d\<close> is still in the slot. Had the invocation been fulfilled, the command would
  have been invoked twice, the second time with the parameters \<open>d\<close> of the last call.
\<close>

theorem three_calls_one_invocation_after_rejection:
  fixes a b c d :: 'a and v :: 'v and e :: 'e
  shows
  "map fst (invocations (exec [Run a, Run b, Run c, Run d]
                           (new_executor :: ('a, 'v, 'e) executor))) = [a]
   \<and> trigger (exec [Run a, Run b, Run c, Run d]
                (new_executor :: ('a, 'v, 'e) executor)) = Some (d, 2)
   \<and> map fst (invocations (exec [Run a, Run b, Run c, Run d, Settle 0 (Rejected e)]
                              (new_executor :: ('a, 'v, 'e) executor))) = [a]
   \<and> snd (invocations (exec [Run a, Run b, Run c, Run d, Settle 0 (Rejected e)]
                          (new_executor :: ('a, 'v, 'e) executor)) ! 0) = Settled (Rejected e)
   \<and> isRunning (exec [Run a, Run b, Run c, Run d, Settle 0 (Rejected e)]
                  (new_executor :: ('a, 'v, 'e) executor)) = 0
   \<and> trigger (exec [Run a, Run b, Run c, Run d, Settle 0 (Rejected e)]
                (new_executor :: ('a, 'v, 'e) executor)) = Some (d, 2)
   \<and> map fst (invocations (exec [Run a, Run b, Run c, Run d, Settle 0 (Fulfilled v)]
                              (new_executor :: ('a, 'v, 'e) executor))) = [a, d]"
  by (simp add: ladder_defs)

section \<open>LadderExecutor: a rejection leaves the trigger in the slot\<close>

text \<open>
  Claim C10. One invocation is in flight and a follow-up \<open>b\<close> is queued. When the
  invocation is rejected, the callback of line 19 does not run: the slot still holds the
  trigger of \<open>b\<close>, no invocation starts, and the executor is idle. A later call
  \<open>run c\<close> therefore starts an invocation at once, leaving the slot alone, and when
  that invocation is fulfilled the stale trigger is called: the command is invoked with the
  old parameters \<open>b\<close>, and only then is the slot cleared.
\<close>

theorem stale_trigger_fires_later:
  assumes "isRunning s = 1" and "n < length (invocations s)"
    and "snd (invocations s ! n) = Pending" and "trigger s = Some (b, q)"
  shows "trigger (exec [Settle n (Rejected e)] s) = Some (b, q)
       \<and> map fst (invocations (exec [Settle n (Rejected e)] s)) = map fst (invocations s)
       \<and> isRunning (exec [Settle n (Rejected e)] s) = 0
       \<and> map fst (invocations (exec [Settle n (Rejected e), Run c] s))
           = map fst (invocations s) @ [c]
       \<and> trigger (exec [Settle n (Rejected e), Run c] s) = Some (b, q)
       \<and> map fst (invocations (exec [Settle n (Rejected e), Run c,
                                       Settle (length (invocations s)) (Fulfilled v)] s))
           = map fst (invocations s) @ [c, b]
       \<and> trigger (exec [Settle n (Rejected e), Run c,
                          Settle (length (invocations s)) (Fulfilled v)] s) = None"
proof -
  let ?m = "length (invocations s)"
  let ?s1 = "settle n (Rejected e) s"
  let ?s2 = "snd (run c ?s1)"
  have e1: "exec [Settle n (Rejected e)] s = ?s1"
    and e2: "exec [Settle n (Rejected e), Run c] s = ?s2"
    and e3: "exec [Settle n (Rejected e), Run c, Settle ?m (Fulfilled v)] s
               = settle ?m (Fulfilled v) ?s2"
    by (simp_all add: exec_def)
  have s1: "?s1 = s\<lparr>invocations := (invocations s)[n := (fst (invocations s ! n), Settled (Rejected e))],
                     isRunning := 0, wasRunBad := True, wasLastRunFine := False\<rparr>"
    using assms(1) by (simp add: settle_rejected [OF assms(2,3)] Executor_settled_def)
  have inv1: "map fst (invocations ?s1) = map fst (invocations s)"
    by (simp add: s1 map_fst_settled)
  have idle1: "isRunning ?s1 = 0" and trig1: "trigger ?s1 = Some (b, q)"
    and len1: "length (invocations ?s1) = ?m"
    using assms(4) by (simp_all add: s1)
  have s2: "?s2 = ?s1\<lparr>runCount := runCount ?s1 + 1, isRunning := 1, wasRun := True,
                       invocations := invocations ?s1 @ [(c, Pending)]\<rparr>"
    using idle1 by (simp add: run_def Executor_run_def)
  have pend: "?m < length (invocations ?s2)" "snd (invocations ?s2 ! ?m) = Pending"
    by (simp_all add: s2 len1 nth_append)
  let ?s3 = "Executor_settled (Fulfilled v)
               (?s2\<lparr>invocations := (invocations ?s2)[?m := (fst (invocations ?s2 ! ?m), Settled (Fulfilled v))]\<rparr>)"
  have trig: "trigger ?s3 = Some (b, q)" and idle: "isRunning ?s3 = 0"
    using trig1 by (simp_all add: s2 Executor_settled_def)
  have inv3: "map fst (invocations ?s3) = map fst (invocations s) @ [c]"
    using inv1 by (simp add: Executor_settled_def map_fst_settled) (simp add: s2)
  have "map fst (invocations (settle ?m (Fulfilled v) ?s2)) = map fst (invocations s) @ [c, b]"
    unfolding settle_fulfilled [OF pend] Let_def
    by (simp only: fold_resolve_fields then_callback_queued [OF trig idle]) (simp add: inv3)
  moreover have "trigger (settle ?m (Fulfilled v) ?s2) = None"
    unfolding settle_fulfilled [OF pend] Let_def
    by (simp only: fold_resolve_fields then_callback_queued [OF trig idle]) simp
  moreover have "map fst (invocations ?s2) = map fst (invocations s) @ [c]"
    and "trigger ?s2 = Some (b, q)"
    using inv1 trig1 by (simp_all add: s2)
  ultimately show ?thesis
    using inv1 idle1 trig1 unfolding e1 e2 e3 by simp
qed

theorem stale_trigger_fires_later_witness:
  "isRunning (exec [Run ''a'', Run ''aa''] (new_executor :: (string, nat, string) executor)) = 1
   \<and> 0 < length (invocations (exec [Run ''a'', Run ''aa'']
                                  (new_executor :: (string, nat, string) executor)))
   \<and> snd (invocations (exec [Run ''a'', Run ''aa'']
                          (new_executor :: (string, nat, string) executor)) ! 0) = Pending
   \<and> trigger (exec [Run ''a'', Run ''aa''] (new_executor :: (string, nat, string) executor))
       = Some (''aa'', 0)
   \<and> trigger (exec [Run ''a'', Run ''aa'', Settle 0 (Rejected ''down'')]
                (new_executor :: (string, nat, string) executor)) = Some (''aa'', 0)
   \<and> map fst (invocations (exec [Run ''a'', Run ''aa'', Settle 0 (Rejected ''down''),
                                    Run ''b'', Settle 1 (Fulfilled 7)]
                              (new_executor :: (string, nat, string) executor)))
       = [''a'', ''b'', ''aa'']"
proof -
  let ?s = "exec [Run ''a'', Run ''aa''] (new_executor :: (string, nat, string) executor)"
  have s: "?s = new_executor\<lparr>runCount := 1, isRunning := 1, wasRun := True,
                              invocations := [(''a'', Pending)], created := [None],
                              trigger := Some (''aa'', 0)\<rparr>"
    by (simp add: exec_def run_def Executor_run_def new_executor_def)
  have h1: "isRunning ?s = 1" and h2: "0 < length (invocations ?s)"
    and h3: "snd (invocations ?s ! 0) = Pending" and h4: "trigger ?s = Some (''aa'', 0)"
    by (simp_all add: s)
  have len: "length (invocations ?s) = 1"
    by (simp add: s)
  have e1: "exec [Run ''a'', Run ''aa'', Settle 0 (Rejected ''down'')]
              (new_executor :: (string, nat, string) executor)
            = exec [Settle 0 (Rejected ''down'')] ?s"
    and e2: "exec [Run ''a'', Run ''aa'', Settle 0 (Rejected ''down''), Run ''b'',
                   Settle 1 (Fulfilled 7)] (new_executor :: (string, nat, string) executor)
            = exec [Settle 0 (Rejected ''down''), Run ''b'', Settle 1 (Fulfilled 7)] ?s"
    by (simp_all add: exec_def)
  have "trigger (exec [Settle 0 (Rejected ''down'')] ?s) = Some (''aa'', 0)"
    and "map fst (invocations (exec [Settle 0 (Rejected ''down''), Run ''b'',
                                     Settle (length (invocations ?s)) (Fulfilled 7)] ?s))
           = map fst (invocations ?s) @ [''b'', ''aa'']"
    using stale_trigger_fires_later [OF h1 h2 h3 h4, of "''down''" "''b''" 7] by blast+
  then show ?thesis
    using h1 h2 h3 h4 unfolding e1 e2 len by (simp add: s)
qed

section \<open>LadderExecutor: a queued call that is overwritten\<close>

text \<open>
  Claim C4. An executor has reached a state with an invocation in flight; a caller calls
  \<open>run b\<close> and, before the invocation settles, another calls \<open>run c\<close>. The first
  caller got the promise of line 26 whose \<^verbatim>\<open>resolve\<close> was in the slot; the second call
  wrote its own closure over it. From then on nothing holds that \<^verbatim>\<open>resolve\<close>: whatever
  calls and settlements follow, the first caller's promise stays pending.
\<close>

theorem superseded_caller_never_settled:
  fixes evs0 :: "('a, 'v, 'e) event list"
  assumes "isRunning (exec evs0 new_executor) \<noteq> 0"
  shows "fst (run b (exec evs0 new_executor))
           = NewPromise (length (created (exec evs0 new_executor)))
       \<and> trigger (exec (evs0 @ [Run b]) new_executor)
           = Some (b, length (created (exec evs0 new_executor)))
       \<and> trigger (exec (evs0 @ [Run b, Run c]) new_executor)
           = Some (c, Suc (length (created (exec evs0 new_executor))))
       \<and> (\<forall>evs. created (exec (evs0 @ [Run b, Run c] @ evs) new_executor)
                    ! length (created (exec evs0 new_executor)) = None)"
proof -
  let ?s = "exec evs0 (new_executor :: ('a, 'v, 'e) executor)"
  let ?q = "length (created ?s)"
  let ?s2 = "exec [Run b, Run c] ?s"
  have s1: "exec [Run b] ?s = ?s\<lparr>created := created ?s @ [None], trigger := Some (b, ?q)\<rparr>"
    using assms by (simp add: exec_def run_def)
  have s2: "?s2 = ?s\<lparr>created := created ?s @ [None, None], trigger := Some (c, Suc ?q)\<rparr>"
    using assms by (simp add: exec_def run_def)
  have "targets_exist ?s"
    by (rule targets_exist_exec [OF targets_exist_new])
  then have "\<forall>c \<in> set (chained ?s). snd c \<noteq> ?q"
    by (auto simp: targets_exist_def)
  then have "abandoned ?q ?s2"
    by (simp add: s2 abandoned_def nth_append)
  then have "created (exec evs ?s2) ! ?q = None" for evs
    by (rule abandoned_stays_pending)
  then have c4: "\<forall>evs. created (exec (evs0 @ [Run b, Run c] @ evs) new_executor) ! ?q = None"
    by (simp only: exec_append) simp
  have c1: "fst (run b ?s) = NewPromise ?q"
    using assms by (simp add: run_def)
  have c2: "trigger (exec (evs0 @ [Run b]) new_executor) = Some (b, ?q)"
    by (simp only: exec_append s1) simp
  have c3: "trigger (exec (evs0 @ [Run b, Run c]) new_executor) = Some (c, Suc ?q)"
    by (simp only: exec_append s2) simp
  show ?thesis
    using c1 c2 c3 c4 by blast
qed

theorem superseded_caller_never_settled_witness:
  "isRunning (exec [Run ''a''] (new_executor :: (string, nat, string) executor)) \<noteq> 0
   \<and> fst (run ''aa'' (exec [Run ''a''] (new_executor :: (string, nat, string) executor)))
       = NewPromise 0
   \<and> created (exec [Run ''a'', Run ''aa'', Run ''aaa'', Settle 0 (Fulfilled 7),
                      Settle 1 (Fulfilled 8)]
                (new_executor :: (string, nat, string) executor)) ! 0 = None
   \<and> created (exec [Run ''a'', Run ''aa'', Run ''aaa'', Settle 0 (Fulfilled 7),
                      Settle 1 (Fulfilled 8)]
                (new_executor :: (string, nat, string) executor)) ! 1 = Some 8"
proof -
  let ?s = "exec [Run ''a''] (new_executor :: (string, nat, string) executor)"
  have s: "?s = new_executor\<lparr>runCount := 1, isRunning := 1, wasRun := True,
                              invocations := [(''a'', Pending)]\<rparr>"
    by (simp add: exec_def run_def Executor_run_def new_executor_def)
  have running: "isRunning ?s \<noteq> 0" and len: "length (created ?s) = 0"
    by (simp_all add: s) (simp add: new_executor_def)
  have "created (exec ([Run ''a''] @ [Run ''aa'', Run ''aaa'']
                       @ [Settle 0 (Fulfilled 7), Settle 1 (Fulfilled 8)])
                  (new_executor :: (string, nat, string) executor)) ! 0 = None"
    and "fst (run ''aa'' ?s) = NewPromise 0"
    using superseded_caller_never_settled [OF running, of "''aa''" "''aaa''"] len by simp_all
  moreover have "created (exec [Run ''a'', Run ''aa'', Run ''aaa'', Settle 0 (Fulfilled 7),
                      Settle 1 (Fulfilled 8)]
                (new_executor :: (string, nat, string) executor)) ! 1 = Some 8"
    by (simp add: exec_def run_def Executor_run_def new_executor_def settle_def record_settlement_def
        Executor_settled_def then_callback_def fire_trigger_def clear_trigger_def
        call_trigger_def)
  ultimately show ?thesis
    using running by simp
qed

section \<open>LadderExecutor: the callback of line 19, statement by statement\<close>

text \<open>
  Claim C5, as amended. An invocation is in flight, a follow-up \<open>b\<close> is queued, and the
  invocation is fulfilled. The callback of line 19 first calls the trigger (line 20), which
  starts the follow-up while the slot still holds that trigger, and then clears the slot
  (line 21): the slot is cleared after the follow-up has started, in the same callback, and
  is empty when the settlement is over.
\<close>

theorem slot_cleared_after_follow_up_started:
  assumes "isRunning s = 1" and "n < length (invocations s)"
    and "snd (invocations s ! n) = Pending" and "trigger s = Some (b, q)"
  shows "trigger (record_settlement n (Fulfilled v) s) = Some (b, q)
       \<and> invocations (fire_trigger (record_settlement n (Fulfilled v) s))
           = invocations (record_settlement n (Fulfilled v) s) @ [(b, Pending)]
       \<and> trigger (fire_trigger (record_settlement n (Fulfilled v) s)) = Some (b, q)
       \<and> then_callback (record_settlement n (Fulfilled v) s)
           = clear_trigger (fire_trigger (record_settlement n (Fulfilled v) s))
       \<and> invocations (settle n (Fulfilled v) s)
           = invocations (fire_trigger (record_settlement n (Fulfilled v) s))
       \<and> trigger (settle n (Fulfilled v) s) = None"
proof -
  let ?s2 = "record_settlement n (Fulfilled v) s"
  have trig: "trigger ?s2 = Some (b, q)" and idle: "isRunning ?s2 = 0"
    using assms(1,4) by (simp_all add: record_settlement_def Executor_settled_def)
  have fire: "fire_trigger ?s2
                = ?s2\<lparr>runCount := runCount ?s2 + 1, isRunning := 1, wasRun := True,
                       invocations := invocations ?s2 @ [(b, Pending)],
                       chained := chained ?s2 @ [(CommandPromise (length (invocations ?s2)), q)]\<rparr>"
    using trig idle by (simp add: fire_trigger_def call_trigger_def run_def Executor_run_def)
  have cb: "then_callback ?s2 = clear_trigger (fire_trigger ?s2)"
    by (simp add: then_callback_def)
  have st: "settle n (Fulfilled v) s
              = fold (\<lambda>q. resolve (Suc (length (created (then_callback ?s2)))) q v)
                  (map snd (filter (\<lambda>c. fst c = CommandPromise n) (chained (then_callback ?s2))))
                  (then_callback ?s2)"
    using assms(2,3) by (simp add: settle_def Let_def)
  have "invocations (settle n (Fulfilled v) s) = invocations (fire_trigger ?s2)"
    unfolding st by (simp only: fold_resolve_fields cb) (simp add: clear_trigger_def)
  moreover have "trigger (settle n (Fulfilled v) s) = None"
    unfolding st by (simp only: fold_resolve_fields cb) (simp add: clear_trigger_def)
  moreover have "invocations (fire_trigger ?s2) = invocations ?s2 @ [(b, Pending)]"
    and "trigger (fire_trigger ?s2) = Some (b, q)"
    using trig by (simp_all add: fire)
  ultimately show ?thesis
    using trig cb by blast
qed

theorem slot_cleared_after_follow_up_started_witness:
  "isRunning (exec [Run ''a'', Run ''aa''] (new_executor :: (string, nat, string) executor)) = 1
   \<and> 0 < length (invocations (exec [Run ''a'', Run ''aa'']
                                  (new_executor :: (string, nat, string) executor)))
   \<and> snd (invocations (exec [Run ''a'', Run ''aa'']
                          (new_executor :: (string, nat, string) executor)) ! 0) = Pending
   \<and> trigger (exec [Run ''a'', Run ''aa''] (new_executor :: (string, nat, string) executor))
       = Some (''aa'', 0)
   \<and> trigger (fire_trigger (record_settlement 0 (Fulfilled 7)
         (exec [Run ''a'', Run ''aa''] (new_executor :: (string, nat, string) executor))))
       = Some (''aa'', 0)
   \<and> trigger (settle 0 (Fulfilled 7)
         (exec [Run ''a'', Run ''aa''] (new_executor :: (string, nat, string) executor)))
       = None"
proof -
  let ?s = "exec [Run ''a'', Run ''aa''] (new_executor :: (string, nat, string) executor)"
  have s: "?s = new_executor\<lparr>runCount := 1, isRunning := 1, wasRun := True,
                              invocations := [(''a'', Pending)], created := [None],
                              trigger := Some (''aa'', 0)\<rparr>"
    by (simp add: exec_def run_def Executor_run_def new_executor_def)
  have h1: "isRunning ?s = 1" and h2: "0 < length (invocations ?s)"
    and h3: "snd (invocations ?s ! 0) = Pending" and h4: "trigger ?s = Some (''aa'', 0)"
    by (simp_all add: s)
  show ?thesis
    using h1 h2 h3 h4 slot_cleared_after_follow_up_started [OF h1 h2 h3 h4, of 7] by blast
qed

text \<open>
  Claim C5, as stated, fails: in the live search of the README, when the first request has
  been fulfilled and line 20 has run, the follow-up \<open>''aa''\<close> has been started and the
  slot is not empty.
\<close>

theorem slot_not_cleared_before_follow_up_counterexample:
  "map fst (invocations (record_settlement 0 (Fulfilled 7)
      (exec [Run ''a'', Run ''aa''] (new_executor :: (string, nat, string) executor))))
     = [''a'']
   \<and> map fst (invocations (fire_trigger (record_settlement 0 (Fulfilled 7)
        (exec [Run ''a'', Run ''aa''] (new_executor :: (string, nat, string) executor)))))
       = [''a'', ''aa'']
   \<and> trigger (fire_trigger (record_settlement 0 (Fulfilled 7)
        (exec [Run ''a'', Run ''aa''] (new_executor :: (string, nat, string) executor))))
       \<noteq> None"
  by (simp add: ladder_defs)

section \<open>LadderExecutor: when an invocation is rejected\<close>

text \<open>
  Claim C1 at the input where the code departs from it. \<open>run a\<close> starts an invocation,
  \<open>run b\<close> is queued, and the invocation is rejected: it has settled and the executor is
  idle, but no follow-up has started and the trigger of \<open>b\<close> is still in the slot. Had
  the invocation been fulfilled, the follow-up \<open>b\<close> would have started at that
  settlement.
\<close>

theorem rejection_starts_no_follow_up:
  fixes a b :: 'a and v :: 'v and e :: 'e
  shows
  "map fst (invocations (exec [Run a, Run b, Settle 0 (Rejected e)]
                           (new_executor :: ('a, 'v, 'e) executor))) = [a]
   \<and> snd (invocations (exec [Run a, Run b, Settle 0 (Rejected e)]
                          (new_executor :: ('a, 'v, 'e) executor)) ! 0) = Settled (Rejected e)
   \<and> isRunning (exec [Run a, Run b, Settle 0 (Rejected e)]
                  (new_executor :: ('a, 'v, 'e) executor)) = 0
   \<and> trigger (exec [Run a, Run b, Settle 0 (Rejected e)]
                (new_executor :: ('a, 'v, 'e) executor)) = Some (b, 0)
   \<and> map fst (invocations (exec [Run a, Run b, Settle 0 (Fulfilled v)]
                              (new_executor :: ('a, 'v, 'e) executor))) = [a, b]"
  by (simp add: ladder_defs)

text \<open>
  Claim C2 at the input where the code departs from it. \<open>run a\<close> starts an invocation,
  \<open>run b\<close> is queued and its caller gets the promise \<open>NewPromise 0\<close>; the first
  invocation is fulfilled, the follow-up \<open>b\<close> starts and is rejected. Whatever happens
  afterwards, the caller's promise stays pending: the failure never reaches it. Had the
  follow-up been fulfilled with \<open>w\<close>, the promise would have been fulfilled with
  \<open>w\<close>; and a caller that calls \<open>run b\<close> on an idle executor holds the promise of
  the command itself, which is rejected when the command fails.
\<close>

theorem follow_up_rejection_never_reaches_caller:
  fixes a b :: 'a and v w :: 'v and e :: 'e
  shows
  "fst (run b (exec [Run a] (new_executor :: ('a, 'v, 'e) executor))) = NewPromise 0
   \<and> invocations (exec [Run a, Run b, Settle 0 (Fulfilled v), Settle 1 (Rejected e)]
                     (new_executor :: ('a, 'v, 'e) executor))
       = [(a, Settled (Fulfilled v)), (b, Settled (Rejected e))]
   \<and> (\<forall>evs. created (exec ([Run a, Run b, Settle 0 (Fulfilled v), Settle 1 (Rejected e)] @ evs)
                          (new_executor :: ('a, 'v, 'e) executor)) ! 0 = None)
   \<and> created (exec [Run a, Run b, Settle 0 (Fulfilled v), Settle 1 (Fulfilled w)]
                 (new_executor :: ('a, 'v, 'e) executor))
       = [Some w]
   \<and> fst (run b (new_executor :: ('a, 'v, 'e) executor)) = CommandPromise 0
   \<and> snd (invocations (exec [Run b, Settle 0 (Rejected e)]
                          (new_executor :: ('a, 'v, 'e) executor)) ! 0)
       = Settled (Rejected e)"
proof -
  let ?s = "exec [Run a, Run b, Settle 0 (Fulfilled v), Settle 1 (Rejected e)]
              (new_executor :: ('a, 'v, 'e) executor)"
  have s: "?s = \<lparr>isRunning = 0, runCount = 2, wasRun = True, wasRunFine = True,
                  wasRunBad = True, wasLastRunFine = False, trigger = None,
                  invocations = [(a, Settled (Fulfilled v)), (b, Settled (Rejected e))],
                  created = [None], chained = [(CommandPromise 1, 0)]\<rparr>"
    by (simp add: ladder_defs)
  have "abandoned 0 ?s"
    unfolding s by (simp add: abandoned_def source_settled_def)
  then have "created (exec evs ?s) ! 0 = None" for evs
    by (rule abandoned_stays_pending)
  then have forever: "\<forall>evs. created (exec ([Run a, Run b, Settle 0 (Fulfilled v),
                         Settle 1 (Rejected e)] @ evs)
                       (new_executor :: ('a, 'v, 'e) executor)) ! 0 = None"
    by (simp only: exec_append) simp
  have rest: "fst (run b (exec [Run a] (new_executor :: ('a, 'v, 'e) executor))) = NewPromise 0"
    "invocations ?s = [(a, Settled (Fulfilled v)), (b, Settled (Rejected e))]"
    "created (exec [Run a, Run b, Settle 0 (Fulfilled v), Settle 1 (Fulfilled w)]
        (new_executor :: ('a, 'v, 'e) executor)) = [Some w]"
    "fst (run b (new_executor :: ('a, 'v, 'e) executor)) = CommandPromise 0"
    "snd (invocations (exec [Run b, Settle 0 (Rejected e)]
        (new_executor :: ('a, 'v, 'e) executor)) ! 0) = Settled (Rejected e)"
    by (simp_all add: ladder_defs)
  show ?thesis
    using forever rest by blast
qed

section \<open>InfiniteLoader: the claims\<close>

text \<open>The definitions that evaluating a run of the loader unfolds.\<close>

lemmas loader_defs = loader_exec_def new_loader_def loader_isRunning_def request_page_def
  loader_next_def start_refresh_def refresh_def page_loaded_def load_settled_def

subsection \<open>The tests of the loader\<close>

text \<open>
  The tests "loads list" and "refreshes" of \<^verbatim>\<open>InfiniteLoader.spec.js\<close>, with a source of
  the numbers from 0 that answers a request at \<open>pointer\<close> with the next ten: two pages
  give twenty items, and a refresh keeps the twenty until its page arrives and leaves ten.
  The other two tests are the witnesses of claims C7 and C8.
\<close>

lemma test_loads_list:
  "length (items (loader_exec [Next, Loaded (Some [0..<10]), Next, Loaded (Some [10..<20])]
                    (new_loader 10 :: nat loader))) = 20"
  by (simp add: loader_defs)

lemma test_refreshes:
  "length (items (loader_exec [Next, Loaded (Some [0..<10]), Next, Loaded (Some [10..<20]),
                               Refresh] (new_loader 10 :: nat loader))) = 20
   \<and> length (items (loader_exec [Next, Loaded (Some [0..<10]), Next, Loaded (Some [10..<20]),
                                  Refresh, Loaded (Some [0..<10])]
                       (new_loader 10 :: nat loader))) = 10"
  by (simp add: loader_defs)

subsection \<open>Refreshing while a load is running\<close>

lemma refresh_while_running:
  "loader_isRunning s \<Longrightarrow> refresh s = s\<lparr>pendingRefresh := True\<rparr>"
  by (simp add: refresh_def)

lemma refreshes_while_running:
  fixes s :: "'x loader"
  assumes "loader_isRunning s"
  shows "loader_exec (replicate (Suc k) (Refresh :: 'x loader_event)) s
           = s\<lparr>pendingRefresh := True\<rparr>"
proof (induction k)
  case 0
  show ?case
    using assms by (simp add: loader_exec_def refresh_while_running)
next
  case (Suc k)
  have "loader_exec (replicate (Suc (Suc k)) (Refresh :: 'x loader_event)) s
          = refresh (loader_exec (replicate (Suc k) (Refresh :: 'x loader_event)) s)"
    unfolding loader_exec_def replicate_Suc [of "Suc k"] replicate_append_same [symmetric]
    by simp
  also have "\<dots> = refresh (s\<lparr>pendingRefresh := True\<rparr>)"
    by (simp only: Suc.IH)
  also have "\<dots> = s\<lparr>pendingRefresh := True\<rparr>"
    using assms by (simp add: refresh_def loader_isRunning_def)
  finally show ?case .
qed

text \<open>
  Claim C7. A load is running and \<open>refresh()\<close> is called \<open>k\<close> times, \<open>k\<close> at
  least one. No page is requested by the calls, and the loader is in the state one call
  would have left it in: one pending refresh. When the running load settles, one page request
  is added, the refresh from pointer zero, and the slot is empty again. The witness is the
  test "handles multiple refreshes": three calls, two requests.
\<close>

theorem refreshes_coalesce:
  fixes s :: "'x loader" and outcome :: "'x list option"
  assumes "loader_isRunning s" and "0 < k"
  shows "requests (loader_exec (replicate k (Refresh :: 'x loader_event)) s) = requests s
       \<and> loader_exec (replicate k (Refresh :: 'x loader_event)) s
           = loader_exec [Refresh :: 'x loader_event] s
       \<and> pendingRefresh (loader_exec (replicate k (Refresh :: 'x loader_event)) s)
       \<and> requests (loader_exec (replicate k Refresh @ [Loaded outcome]) s)
           = requests s @ [(0, perStep s)]
       \<and> phase (loader_exec (replicate k Refresh @ [Loaded outcome]) s) = Refreshing
       \<and> \<not> pendingRefresh (loader_exec (replicate k Refresh @ [Loaded outcome]) s)"
proof -
  obtain j where k: "k = Suc j"
    using assms(2) by (cases k) simp_all
  let ?r = "loader_exec (replicate k (Refresh :: 'x loader_event)) s"
  have r: "?r = s\<lparr>pendingRefresh := True\<rparr>"
    unfolding k by (rule refreshes_while_running [OF assms(1)])
  have one: "loader_exec [Refresh :: 'x loader_event] s = s\<lparr>pendingRefresh := True\<rparr>"
    using assms(1) by (simp add: loader_exec_def refresh_while_running)
  have app: "loader_exec (replicate k Refresh @ [Loaded outcome]) s = load_settled outcome ?r"
    by (simp add: loader_exec_def)
  have settled: "requests (load_settled outcome ?r) = requests s @ [(0, perStep s)]"
    "phase (load_settled outcome ?r) = Refreshing"
    "\<not> pendingRefresh (load_settled outcome ?r)"
    using assms(1) unfolding r
    by (cases outcome; simp add: load_settled_def loader_isRunning_def start_refresh_def
        request_page_def page_loaded_def)+
  show ?thesis
    using settled unfolding app by (simp add: r one)
qed

theorem refreshes_coalesce_witness:
  "loader_isRunning (loader_exec [Refresh :: nat loader_event] (new_loader 10))
   \<and> (0 :: nat) < 2
   \<and> requests (loader_exec [Refresh :: nat loader_event] (new_loader 10)) = [(0, 10)]
   \<and> requests (loader_exec [Refresh, Refresh, Refresh :: nat loader_event]
                   (new_loader 10)) = [(0, 10)]
   \<and> requests (loader_exec [Refresh, Refresh, Refresh, Loaded (Some [])
                               :: nat loader_event] (new_loader 10))
       = [(0, 10), (0, 10)]"
proof -
  let ?s = "loader_exec [Refresh :: nat loader_event] (new_loader 10)"
  have s: "?s = \<lparr>items = [], pointer = 0, perStep = 10, isFinished = False,
                  phase = Refreshing, pendingRefresh = False, requests = [(0, 10)]\<rparr>"
    by (simp add: loader_defs)
  have running: "loader_isRunning ?s"
    by (simp add: s loader_isRunning_def)
  have two: "(0 :: nat) < 2" by simp
  have e1: "loader_exec [Refresh, Refresh, Refresh :: nat loader_event] (new_loader 10)
              = loader_exec (replicate 2 (Refresh :: nat loader_event)) ?s"
    and e2: "loader_exec [Refresh, Refresh, Refresh, Loaded (Some [])
                          :: nat loader_event] (new_loader 10)
              = loader_exec (replicate 2 Refresh @ [Loaded (Some [])
                                                     :: nat loader_event]) ?s"
    by (simp_all add: loader_exec_def numeral_2_eq_2)
  have "requests (loader_exec (replicate 2 (Refresh :: nat loader_event)) ?s)
          = requests ?s"
    and "requests (loader_exec (replicate 2 Refresh @ [Loaded (Some [])
                                                  :: nat loader_event]) ?s)
          = requests ?s @ [(0, perStep ?s)]"
    using refreshes_coalesce [OF running two, of "Some []"]
    by blast+
  then show ?thesis
    using running unfolding e1 e2 by (simp add: s)
qed

subsection \<open>Calling next while a load is running\<close>

lemma next_while_running:
  "loader_isRunning s \<Longrightarrow> loader_next s = s"
  by (simp add: loader_next_def)

lemma nexts_while_running:
  fixes s :: "'x loader"
  assumes "loader_isRunning s"
  shows "loader_exec (replicate k (Next :: 'x loader_event)) s = s"
  unfolding loader_exec_def
  by (induction k) (simp_all add: next_while_running [OF assms])

text \<open>
  Claim C8. A load is running. A call of \<open>next()\<close>, and any number of them, leaves the
  loader as it was: no page is requested and no field changes. Nothing was queued either:
  when the load settles with no refresh pending, the loader is idle and still no page has
  been requested. Progress takes another call after the settlement: unless the loader has
  finished, that call requests the next page. The witness is the test "handles multiple
  next".
\<close>

theorem next_while_loading_ignored:
  fixes s :: "'x loader" and outcome :: "'x list option"
  assumes "loader_isRunning s"
  shows "loader_next s = s
       \<and> loader_exec (replicate k (Next :: 'x loader_event)) s = s
       \<and> (\<not> pendingRefresh s \<longrightarrow>
            requests (loader_exec (replicate k Next @ [Loaded outcome]) s) = requests s
            \<and> \<not> loader_isRunning (loader_exec (replicate k Next @ [Loaded outcome]) s))
       \<and> (\<not> pendingRefresh s
            \<and> \<not> isFinished (loader_exec (replicate k Next @ [Loaded outcome]) s) \<longrightarrow>
            requests (loader_exec (replicate k Next @ [Loaded outcome, Next]) s)
              = requests s @ [(pointer (loader_exec (replicate k Next @ [Loaded outcome]) s),
                               perStep s)])"
proof -
  have nexts: "loader_exec (replicate k (Next :: 'x loader_event)) s = s"
    by (rule nexts_while_running [OF assms])
  have app: "loader_exec (replicate k Next @ [Loaded outcome]) s = load_settled outcome s"
    "loader_exec (replicate k Next @ [Loaded outcome, Next]) s
       = loader_next (load_settled outcome s)"
    using nexts [unfolded loader_exec_def] by (simp_all add: loader_exec_def)
  have settled: "requests (load_settled outcome s) = requests s"
    "\<not> loader_isRunning (load_settled outcome s)"
    "perStep (load_settled outcome s) = perStep s"
    if "\<not> pendingRefresh s"
    using that assms
    by (cases outcome; simp add: load_settled_def loader_isRunning_def page_loaded_def)+
  have again: "requests (loader_next (load_settled outcome s))
                 = requests s @ [(pointer (load_settled outcome s), perStep s)]"
    if "\<not> pendingRefresh s" and "\<not> isFinished (load_settled outcome s)"
    using that settled [OF that(1)] by (simp add: loader_next_def request_page_def)
  show ?thesis
    using next_while_running [OF assms] nexts settled again unfolding app by blast
qed

theorem next_while_loading_ignored_witness:
  "loader_isRunning (loader_exec [Next :: nat loader_event] (new_loader 10))
   \<and> requests (loader_exec [Next, Next :: nat loader_event] (new_loader 10))
       = [(0, 10)]
   \<and> loader_exec [Next, Next :: nat loader_event] (new_loader 10)
       = loader_exec [Next :: nat loader_event] (new_loader 10)
   \<and> requests (loader_exec [Next, Next, Loaded (Some [0..<10]), Next
                               :: nat loader_event] (new_loader 10))
       = [(0, 10), (10, 10)]"
proof -
  let ?s = "loader_exec [Next :: nat loader_event] (new_loader 10)"
  have s: "?s = \<lparr>items = [], pointer = 0, perStep = 10, isFinished = False,
                  phase = Loading, pendingRefresh = False, requests = [(0, 10)]\<rparr>"
    by (simp add: loader_defs)
  have running: "loader_isRunning ?s"
    by (simp add: s loader_isRunning_def)
  have e1: "loader_exec [Next, Next :: nat loader_event] (new_loader 10)
              = loader_next ?s"
    and e2: "loader_exec [Next, Next, Loaded (Some [0..<10]), Next
                          :: nat loader_event] (new_loader 10)
              = loader_exec (replicate 1 Next @ [Loaded (Some [0..<10]), Next
                                                 :: nat loader_event]) ?s"
    by (simp_all add: loader_exec_def)
  have l: "load_settled (Some [0..<10]) ?s
             = \<lparr>items = [0..<10], pointer = 10, perStep = 10, isFinished = False,
                 phase = Idle, pendingRefresh = False, requests = [(0, 10)]\<rparr>"
    unfolding s by (simp add: load_settled_def loader_isRunning_def page_loaded_def)
  have settled: "loader_exec (replicate 1 Next @ [Loaded (Some [0..<10])
                                                  :: nat loader_event]) ?s
                   = load_settled (Some [0..<10]) ?s"
    using running by (simp add: loader_exec_def next_while_running)
  have "loader_next ?s = ?s"
    and "requests (loader_exec (replicate 1 Next @ [Loaded (Some [0..<10]), Next
                                                    :: nat loader_event]) ?s)
           = requests ?s @ [(pointer (loader_exec (replicate 1 Next @ [Loaded (Some [0..<10])
                                                    :: nat loader_event]) ?s),
                             perStep ?s)]"
    using next_while_loading_ignored [OF running, of 1
        "Some [0..<10]"]
    unfolding settled l by (simp_all add: s)
  then show ?thesis
    using running unfolding e1 e2 settled l by (simp add: s)
qed

subsection \<open>When the loader is finished\<close>

lemma idle_or_unfinished_step:
  assumes "loader_isRunning s \<longrightarrow> \<not> isFinished s"
  shows "loader_isRunning (loader_step ev s) \<longrightarrow> \<not> isFinished (loader_step ev s)"
proof (cases ev)
  case Next
  then show ?thesis
    using assms by (simp add: loader_next_def loader_isRunning_def request_page_def)
next
  case Refresh
  then show ?thesis
    using assms by (simp add: refresh_def loader_isRunning_def start_refresh_def request_page_def)
next
  case (Loaded outcome)
  then show ?thesis
    by (simp add: load_settled_def loader_isRunning_def start_refresh_def request_page_def
        Let_def)
qed

lemma perStep_step [simp]:
  "perStep (loader_step ev s) = perStep s"
proof (cases ev)
  case (Loaded outcome)
  then show ?thesis
    by (cases outcome) (simp_all add: load_settled_def start_refresh_def request_page_def
        page_loaded_def Let_def)
qed (simp_all add: loader_next_def refresh_def start_refresh_def request_page_def)

lemma running_implies_unfinished:
  assumes "loader_isRunning s \<longrightarrow> \<not> isFinished s"
  shows "loader_isRunning (loader_exec evs s) \<longrightarrow> \<not> isFinished (loader_exec evs s)"
  using assms unfolding loader_exec_def
proof (induction evs arbitrary: s)
  case Nil
  then show ?case by simp
next
  case (Cons ev evs)
  show ?case
    using Cons.IH [OF idle_or_unfinished_step [OF Cons.prems]] by simp
qed

lemma perStep_exec [simp]:
  "perStep (loader_exec evs s) = perStep s"
  unfolding loader_exec_def by (induction evs arbitrary: s) simp_all

text \<open>
  Claim C9. A loader made with page size \<open>n\<close> has a load in flight, after any calls and
  settlements. When the load succeeds with a page, \<open>isFinished\<close> is true afterwards
  exactly when the page has fewer than \<open>n\<close> elements: a page of exactly \<open>n\<close>
  elements leaves the loader unfinished. The same holds after the whole settlement when no
  refresh is pending (a pending refresh starts at once and clears \<open>isFinished\<close>).
\<close>

theorem finished_iff_short_page:
  fixes evs :: "'x loader_event list" and page :: "'x list"
  assumes "loader_isRunning (loader_exec evs (new_loader n))"
  shows "perStep (loader_exec evs (new_loader n :: 'x loader)) = n
       \<and> (isFinished (page_loaded page (loader_exec evs (new_loader n))) \<longleftrightarrow> length page < n)
       \<and> (\<not> pendingRefresh (loader_exec evs (new_loader n)) \<longrightarrow>
            (isFinished (loader_exec (evs @ [Loaded (Some page)]) (new_loader n))
               \<longleftrightarrow> length page < n))"
proof -
  let ?s = "loader_exec evs (new_loader n :: 'x loader)"
  have "loader_isRunning (new_loader n :: 'x loader) \<longrightarrow> \<not> isFinished (new_loader n :: 'x loader)"
    by (simp add: new_loader_def)
  then have unfinished: "\<not> isFinished ?s"
    using running_implies_unfinished [of "new_loader n" evs] assms by blast
  have step: "perStep ?s = n"
    by (simp add: new_loader_def)
  have loaded: "isFinished (page_loaded page ?s) \<longleftrightarrow> length page < n"
    using unfinished step by (simp add: page_loaded_def)
  have app: "loader_exec (evs @ [Loaded (Some page)]) (new_loader n)
               = load_settled (Some page) ?s"
    by (simp add: loader_exec_def)
  have "isFinished (load_settled (Some page) ?s)
          \<longleftrightarrow> length page < n"
    if "\<not> pendingRefresh ?s"
    using that assms loaded by (simp add: load_settled_def page_loaded_def)
  then show ?thesis
    using step loaded unfolding app by blast
qed

theorem finished_iff_short_page_witness:
  "loader_isRunning (loader_exec [Next :: nat loader_event] (new_loader 10))
   \<and> \<not> isFinished (loader_exec [Next, Loaded (Some [0..<10]) :: nat loader_event]
                       (new_loader 10))
   \<and> isFinished (loader_exec [Next, Loaded (Some [0..<9]) :: nat loader_event]
                     (new_loader 10))"
proof -
  let ?evs = "[Next :: nat loader_event]"
  have s: "loader_exec ?evs (new_loader 10)
             = \<lparr>items = [], pointer = 0, perStep = 10, isFinished = False,
                 phase = Loading, pendingRefresh = False, requests = [(0, 10)]\<rparr>"
    by (simp add: loader_defs)
  have running: "loader_isRunning (loader_exec ?evs (new_loader 10 :: nat loader))"
    by (simp add: s loader_isRunning_def)
  have idle: "\<not> pendingRefresh (loader_exec ?evs (new_loader 10 :: nat loader))"
    by (simp add: s)
  have "isFinished (loader_exec (?evs @ [Loaded (Some [0..<10])]) (new_loader 10))
          \<longleftrightarrow> length [0..<10 :: nat] < 10"
    and "isFinished (loader_exec (?evs @ [Loaded (Some [0..<9])]) (new_loader 10))
          \<longleftrightarrow> length [0..<9 :: nat] < 10"
    using finished_iff_short_page [OF running, of "[0..<10]"]
      finished_iff_short_page [OF running, of "[0..<9]"] idle by blast+
  then show ?thesis
    using running by simp
qed

end
